theory Spec2Isabelle
  imports Main
begin

section \<open>Thread suspend and resume (susp.c)\<close>

text \<open>
  A shallow embedding of the suspend package of \<^verbatim>\<open>susp.c\<close>: the globals
  \<^verbatim>\<open>array\<close>, \<^verbatim>\<open>bottom\<close>, \<^verbatim>\<open>inited\<close>, \<^verbatim>\<open>sentinel\<close> and \<^verbatim>\<open>once\<close>, the
  initialisation routine, and the two operations \<^verbatim>\<open>thd_suspend\<close> and
  \<^verbatim>\<open>thd_continue\<close>. Each operation is a function from the state of the globals
  to an outcome; what the operating system answers during the call (the status of
  each library call, the memory that lies behind the array) is an argument.
\<close>

subsection \<open>Data\<close>

text \<open>
  \<^verbatim>\<open>pthread_t\<close> is used as a scalar: the code compares it with \<^verbatim>\<open>==\<close> and with
  the constant \<^verbatim>\<open>0\<close>, and \<^verbatim>\<open>null_pthread = {0}\<close>. It is a natural number here,
  \<open>0\<close> being the empty slot. \<^verbatim>\<open>bottom\<close> and the loop counters are C \<^verbatim>\<open>int\<close>s that
  start at \<open>0\<close> or \<open>10\<close> and only ever go up by one, so they are natural numbers.
\<close>

type_synonym pthread_t = nat

definition null_pthread :: pthread_t where
  "null_pthread = 0"

datatype signal = SIGUSR1 | SIGUSR2

text \<open>
  The globals. \<open>array\<close> is \<open>None\<close> for the \<^verbatim>\<open>NULL\<close> pointer and \<open>Some blk\<close> for a
  heap block of \<open>length blk\<close> slots. \<open>once\<close> is the \<^verbatim>\<open>pthread_once_t\<close>: whether the
  initialisation routine has been run. \<open>delivered\<close> and \<open>overruns\<close> are not
  variables of the program: \<open>delivered\<close> lists, oldest first, the signals that
  \<^verbatim>\<open>pthread_kill\<close> has sent, and \<open>overruns\<close> the writes \<^verbatim>\<open>array[i] = v\<close> that went
  to memory behind the array's block, as pairs \<open>(i, v)\<close>.
\<close>

record state =
  array :: "pthread_t list option"
  bottom :: nat
  inited :: bool
  sentinel :: int
  once :: bool
  delivered :: "(pthread_t \<times> signal) list"
  overruns :: "(nat \<times> pthread_t) list"

definition initial_state :: state where
  "initial_state = \<lparr>array = None, bottom = 0, inited = False, sentinel = 0,
     once = False, delivered = [], overruns = []\<rparr>"

text \<open>
  What the environment answers during one call: the status \<^verbatim>\<open>pthread_once\<close>,
  \<^verbatim>\<open>pthread_mutex_lock\<close>, \<^verbatim>\<open>pthread_mutex_unlock\<close> and \<^verbatim>\<open>pthread_kill\<close> return, the
  status of the two \<^verbatim>\<open>sigaction\<close> calls, whether \<^verbatim>\<open>calloc\<close> and \<^verbatim>\<open>realloc\<close>
  succeed, the indeterminate content \<^verbatim>\<open>realloc\<close> leaves in a slot it adds, the
  value of \<^verbatim>\<open>errno\<close> after a failed \<^verbatim>\<open>realloc\<close>, and whether the target thread runs
  \<^verbatim>\<open>suspend_signal_handler\<close> (which sets \<^verbatim>\<open>sentinel = 1\<close>) once the signal is sent.

  \<open>past_end\<close> is the memory right behind the array's block, one entry per slot
  size, as far as it can be read: a read of \<^verbatim>\<open>array[i]\<close> with \<open>i\<close> beyond the block
  finds \<open>past_end ! (i - length blk)\<close> there, and traps where \<open>past_end\<close> ends.
  With \<open>past_end = []\<close> every read outside the block traps. \<open>overrun_lands\<close> says
  what a write of \<^verbatim>\<open>array[i]\<close> with \<open>i\<close> beyond the block does: it lands in the
  memory behind the block and the call goes on, or it traps.
\<close>

record env =
  once_status :: int
  calloc_ok :: bool
  sigaction_status :: "signal \<Rightarrow> int"
  lock_status :: int
  unlock_status :: int
  past_end :: "pthread_t list"
  overrun_lands :: bool
  realloc_ok :: bool
  fresh :: pthread_t
  errno :: int
  kill_status :: int
  handler_runs :: bool

datatype fault = Null_Deref | OOB_Read nat | OOB_Write nat

text \<open>
  How a call ends: it returns a status, it traps in an access through \<^verbatim>\<open>NULL\<close> or
  outside the array's block (\<open>Fault\<close>, with the access and the globals at that
  moment), it waits for \<^verbatim>\<open>sentinel\<close> forever (\<open>Spin\<close>), or the process is aborted
  (\<open>Abort\<close>).
\<close>

datatype outcome = Return int state | Fault fault state | Spin state | Abort state

fun final :: "outcome \<Rightarrow> state" where
  "final (Return r s) = s"
| "final (Fault f s) = s"
| "final (Spin s) = s"
| "final (Abort s) = s"

subsection \<open>Memory\<close>

text \<open>
  \<^verbatim>\<open>array[i]\<close> as an rvalue. Through the \<^verbatim>\<open>NULL\<close> pointer it is a null dereference;
  inside the block it is the slot; behind the block it is whatever lies there, or a
  trap.
\<close>

definition load :: "env \<Rightarrow> state \<Rightarrow> nat \<Rightarrow> fault + pthread_t" where
  "load e s i =
     (case array s of
        None \<Rightarrow> Inl Null_Deref
      | Some blk \<Rightarrow>
          if i < length blk then Inr (blk ! i)
          else if i - length blk < length (past_end e) then Inr (past_end e ! (i - length blk))
          else Inl (OOB_Read i))"

text \<open>
  \<^verbatim>\<open>array[i] = v\<close>. Inside the block it changes the slot. Outside the block it
  either lands behind the block, where it leaves every slot as it is and is noted
  in \<open>overruns\<close>, and the call goes on as the source does; or it traps.
\<close>

definition store :: "env \<Rightarrow> state \<Rightarrow> nat \<Rightarrow> pthread_t \<Rightarrow> fault + state" where
  "store e s i v =
     (case array s of
        None \<Rightarrow> Inl Null_Deref
      | Some blk \<Rightarrow>
          if i < length blk then Inr (s\<lparr>array := Some (blk[i := v])\<rparr>)
          else if overrun_lands e then Inr (s\<lparr>overruns := overruns s @ [(i, v)]\<rparr>)
          else Inl (OOB_Write i))"

text \<open>
  \<^verbatim>\<open>realloc (array, n * sizeof (pthread_t))\<close>: \<^verbatim>\<open>NULL\<close> on failure; on success a
  block of \<open>n\<close> slots that starts with the old content, every added slot holding
  the indeterminate value \<open>fresh e\<close>.
\<close>

definition realloc :: "env \<Rightarrow> pthread_t list option \<Rightarrow> nat \<Rightarrow> pthread_t list option" where
  "realloc e a n =
     (if realloc_ok e
      then (let old = (case a of None \<Rightarrow> [] | Some blk \<Rightarrow> blk)
            in Some (take n old @ replicate (n - length old) (fresh e)))
      else None)"

subsection \<open>Initialisation\<close>

text \<open>
  \<^verbatim>\<open>suspend_init_routine\<close>: \<^verbatim>\<open>bottom = 10\<close>, the array from \<^verbatim>\<open>calloc\<close> (not checked
  for \<^verbatim>\<open>NULL\<close>), the two handlers, \<^verbatim>\<open>inited = 1\<close>.

  Modelled from the spec: \<^verbatim>\<open>errno_abort\<close> is a macro of \<^verbatim>\<open>errors.h\<close>, which is not
  among the sources; by the spec a handler that cannot be installed is fatal, so
  the routine ends in \<open>Inl\<close> (the process aborts) there.
\<close>

definition suspend_init_routine :: "env \<Rightarrow> state \<Rightarrow> state + state" where
  "suspend_init_routine e s =
     (let s1 = s\<lparr>bottom := 10,
                 array := (if calloc_ok e then Some (replicate 10 0) else None)\<rparr>
      in if sigaction_status e SIGUSR1 = - 1 then Inl s1
         else if sigaction_status e SIGUSR2 = - 1 then Inl s1
         else Inr (s1\<lparr>inited := True\<rparr>))"

text \<open>
  \<^verbatim>\<open>pthread_once (&once, suspend_init_routine)\<close> with status \<open>0\<close>: the routine runs
  unless it has run before.
\<close>

definition pthread_once :: "env \<Rightarrow> state \<Rightarrow> state + state" where
  "pthread_once e s =
     (if once s then Inr s
      else suspend_init_routine e (s\<lparr>once := True\<rparr>))"

subsection \<open>The loops\<close>

text \<open>
  The first loop of \<^verbatim>\<open>thd_suspend\<close>:
  \<^verbatim>\<open>while (i < bottom) if (array[i++] == target_thread) { ... return status; }\<close>.
  \<open>Inr True\<close>: the target was found; \<open>Inr False\<close>: the loop ran to \<^verbatim>\<open>bottom\<close>.
\<close>

function suspend_scan :: "env \<Rightarrow> state \<Rightarrow> pthread_t \<Rightarrow> nat \<Rightarrow> fault + bool" where
  "suspend_scan e s t i =
     (if i < bottom s
      then (case load e s i of
              Inl f \<Rightarrow> Inl f
            | Inr v \<Rightarrow> if v = t then Inr True else suspend_scan e s t (i + 1))
      else Inr False)"
  by pat_completeness auto
termination
  by (relation "measure (\<lambda>(e, s, t, i). bottom s - i)") auto

text \<open>
  The second loop of \<^verbatim>\<open>thd_suspend\<close>: \<^verbatim>\<open>i = 0; while (array[i] != 0) i++;\<close>. It has
  no bound: it ends at the first slot that reads \<open>0\<close>, inside the block or behind it.
\<close>

definition mem_limit :: "env \<Rightarrow> state \<Rightarrow> nat" where
  "mem_limit e s =
     (case array s of None \<Rightarrow> 0 | Some blk \<Rightarrow> length blk + length (past_end e))"

function find_slot :: "env \<Rightarrow> state \<Rightarrow> nat \<Rightarrow> fault + nat" where
  "find_slot e s i =
     (case load e s i of
        Inl f \<Rightarrow> Inl f
      | Inr v \<Rightarrow> if v \<noteq> 0 then find_slot e s (i + 1) else Inr i)"
  by pat_completeness auto
termination
  by (relation "measure (\<lambda>(e, s, i). mem_limit e s - i)")
     (auto simp: load_def mem_limit_def split: option.splits if_splits)

text \<open>
  The loop of \<^verbatim>\<open>thd_continue\<close>:
  \<^verbatim>\<open>while (array[i] != target_thread && i < bottom) i++;\<close>. The slot is read before
  the index is compared with \<^verbatim>\<open>bottom\<close>.
\<close>

function continue_scan :: "env \<Rightarrow> state \<Rightarrow> pthread_t \<Rightarrow> nat \<Rightarrow> fault + nat" where
  "continue_scan e s t i =
     (case load e s i of
        Inl f \<Rightarrow> Inl f
      | Inr v \<Rightarrow> if v \<noteq> t \<and> i < bottom s then continue_scan e s t (i + 1) else Inr i)"
  by pat_completeness auto
termination
  by (relation "measure (\<lambda>(e, s, t, i). bottom s - i)") auto

declare suspend_scan.simps [simp del] find_slot.simps [simp del] continue_scan.simps [simp del]

subsection \<open>thd_suspend\<close>

text \<open>
  Lines 167 to 176: when the search stopped at \<^verbatim>\<open>i == bottom\<close>, \<^verbatim>\<open>bottom\<close> is
  incremented, the array is reallocated to \<^verbatim>\<open>bottom\<close> slots and assigned, and on
  success \<^verbatim>\<open>array[bottom] = null_pthread\<close> is written. \<open>Inl\<close>: the call ends here;
  \<open>Inr\<close>: it goes on to line 181 with the grown registry.
\<close>

definition grow :: "env \<Rightarrow> state \<Rightarrow> outcome + state" where
  "grow e s =
     (let s1 = s\<lparr>bottom := bottom s + 1\<rparr>;
          s2 = s1\<lparr>array := realloc e (array s1) (bottom s1)\<rparr>
      in if array s2 = None then Inl (Return (errno e) s2)
         else (case store e s2 (bottom s2) null_pthread of
                 Inl f \<Rightarrow> Inl (Fault f s2)
               | Inr s3 \<Rightarrow> Inr s3))"

text \<open>
  Lines 181 to 197: clear the sentinel, send \<^verbatim>\<open>SIGUSR1\<close>, wait until the handler
  has set the sentinel, record the target in slot \<open>i\<close>.
\<close>

definition signal_and_record :: "env \<Rightarrow> state \<Rightarrow> pthread_t \<Rightarrow> nat \<Rightarrow> outcome" where
  "signal_and_record e s t i =
     (let s1 = s\<lparr>sentinel := 0\<rparr>
      in if kill_status e \<noteq> 0 then Return (kill_status e) s1
         else (let s2 = s1\<lparr>delivered := delivered s1 @ [(t, SIGUSR1)]\<rparr>
               in if handler_runs e
                  then (let s3 = s2\<lparr>sentinel := 1\<rparr>
                        in case store e s3 i t of
                             Inl f \<Rightarrow> Fault f s3
                           | Inr s4 \<Rightarrow> Return (unlock_status e) s4)
                  else Spin s2))"

definition thd_suspend :: "env \<Rightarrow> state \<Rightarrow> pthread_t \<Rightarrow> outcome" where
  "thd_suspend e s t =
     (if once_status e \<noteq> 0 then Return (once_status e) s
      else (case pthread_once e s of
              Inl a \<Rightarrow> Abort a
            | Inr s1 \<Rightarrow>
                if lock_status e \<noteq> 0 then Return (lock_status e) s1
                else (case suspend_scan e s1 t 0 of
                        Inl f \<Rightarrow> Fault f s1
                      | Inr True \<Rightarrow> Return (unlock_status e) s1
                      | Inr False \<Rightarrow>
                          (case find_slot e s1 0 of
                             Inl f \<Rightarrow> Fault f s1
                           | Inr i \<Rightarrow>
                               if i = bottom s1
                               then (case grow e s1 of
                                       Inl out \<Rightarrow> out
                                     | Inr s2 \<Rightarrow> signal_and_record e s2 t i)
                               else signal_and_record e s1 t i))))"

subsection \<open>thd_continue\<close>

definition thd_continue :: "env \<Rightarrow> state \<Rightarrow> pthread_t \<Rightarrow> outcome" where
  "thd_continue e s t =
     (if lock_status e \<noteq> 0 then Return (lock_status e) s
      else if \<not> inited s then Return (unlock_status e) s
      else (case continue_scan e s t 0 of
              Inl f \<Rightarrow> Fault f s
            | Inr i \<Rightarrow>
                if i \<ge> bottom s then Return 0 s
                else if kill_status e \<noteq> 0 then Return (kill_status e) s
                else (let s1 = s\<lparr>delivered := delivered s @ [(t, SIGUSR2)]\<rparr>
                      in case store e s1 i 0 of
                           Inl f \<Rightarrow> Fault f s1
                         | Inr s2 \<Rightarrow> Return (unlock_status e) s2)))"

subsection \<open>The registry and its reachable states\<close>

text \<open>The slots of the registry, none while the array is \<^verbatim>\<open>NULL\<close>.\<close>

definition slots :: "state \<Rightarrow> pthread_t list" where
  "slots s = (case array s of None \<Rightarrow> [] | Some blk \<Rightarrow> blk)"

text \<open>No thread identifier stands in two slots: the slots that are not empty differ.\<close>

definition registry_unique :: "state \<Rightarrow> bool" where
  "registry_unique s = distinct (filter (\<lambda>t. t \<noteq> 0) (slots s))"

text \<open>
  Every slot is empty or holds a recorded thread: one that \<^verbatim>\<open>thd_suspend\<close> has
  sent \<^verbatim>\<open>SIGUSR1\<close> to.
\<close>

definition slots_recorded :: "state \<Rightarrow> bool" where
  "slots_recorded s = list_all (\<lambda>t. t = 0 \<or> (t, SIGUSR1) \<in> set (delivered s)) (slots s)"

text \<open>The block has as many slots as \<^verbatim>\<open>bottom\<close> says.\<close>

definition sized :: "state \<Rightarrow> bool" where
  "sized s = (case array s of None \<Rightarrow> True | Some blk \<Rightarrow> length blk = bottom s)"

text \<open>The invariant of the registry: the three properties together.\<close>

definition registry_inv :: "state \<Rightarrow> bool" where
  "registry_inv s = (sized s \<and> registry_unique s \<and> slots_recorded s)"

text \<open>
  The states of the globals between calls: the initial values of the source, and
  what a call of \<^verbatim>\<open>thd_suspend\<close> or \<^verbatim>\<open>thd_continue\<close> that returns leaves behind,
  whatever the environment answered and whatever the target was.
\<close>

inductive reachable :: "state \<Rightarrow> bool" where
  start: "reachable initial_state"
| suspend: "reachable s \<Longrightarrow> thd_suspend e s t = Return r s' \<Longrightarrow> reachable s'"
| continue: "reachable s \<Longrightarrow> thd_continue e s t = Return r s' \<Longrightarrow> reachable s'"

subsection \<open>Concrete environments and states\<close>

text \<open>
  An environment in which every library call succeeds and every access behind the
  array's block traps.
\<close>

definition quiet_env :: env where
  "quiet_env = \<lparr>once_status = 0, calloc_ok = True, sigaction_status = (\<lambda>_. 0),
     lock_status = 0, unlock_status = 0, past_end = [], overrun_lands = False,
     realloc_ok = True, fresh = 0,
     errno = 12, kill_status = 0, handler_runs = True\<rparr>"

text \<open>The globals after thread 7 has been suspended in a fresh process.\<close>

definition one_suspended :: state where
  "one_suspended = final (thd_suspend quiet_env initial_state 7)"

text \<open>
  The globals after the threads 1 to 10 have been suspended in a fresh process, one
  after the other: all ten slots of the initial allocation are taken.
\<close>

definition ten_suspended :: state where
  "ten_suspended =
     fold (\<lambda>t s. final (thd_suspend quiet_env s t)) [1, 2, 3, 4, 5, 6, 7, 8, 9, 10] initial_state"

text \<open>The globals after thread 7 has been suspended and then resumed.\<close>

definition one_resumed :: state where
  "one_resumed = final (thd_continue quiet_env one_suspended 7)"

text \<open>
  An environment for a call on a full registry: the word behind the block reads
  \<open>0\<close>, a write behind the block lands, \<^verbatim>\<open>realloc\<close> leaves 7 in the slot it adds,
  and \<^verbatim>\<open>pthread_kill\<close> fails with status 3 (the target no longer exists). In it,
  \<^verbatim>\<open>thd_suspend (11)\<close> is called with the threads 1 to 10 suspended.
\<close>

definition leftover_env :: env where
  "leftover_env = quiet_env\<lparr>past_end := [0], overrun_lands := True, fresh := 7, kill_status := 3\<rparr>"

definition leftover_state :: state where
  "leftover_state = final (thd_suspend leftover_env ten_suspended 11)"

text \<open>Every one of a list of \<^verbatim>\<open>thd_suspend\<close> calls, made one after the other, returns.\<close>

fun returns_all :: "env \<Rightarrow> state \<Rightarrow> pthread_t list \<Rightarrow> bool" where
  "returns_all e s [] = True"
| "returns_all e s (t # ts) =
     (case thd_suspend e s t of
        Return r s' \<Rightarrow> returns_all e s' ts
      | Fault f s' \<Rightarrow> False
      | Spin s' \<Rightarrow> False
      | Abort s' \<Rightarrow> False)"

section \<open>Properties\<close>

subsection \<open>Memory accesses and single steps of the loops\<close>

lemma load_block: "array s = Some blk \<Longrightarrow> i < length blk \<Longrightarrow> load e s i = Inr (blk ! i)"
  by (simp add: load_def)

lemma load_behind:
  "array s = Some blk \<Longrightarrow> past_end e = v # p \<Longrightarrow> load e s (length blk) = Inr v"
  by (simp add: load_def)

lemma load_trap:
  "array s = Some blk \<Longrightarrow> past_end e = [] \<Longrightarrow> length blk \<le> i \<Longrightarrow> load e s i = Inl (OOB_Read i)"
  by (simp add: load_def)

lemma suspend_scan_step:
  "i < bottom s \<Longrightarrow> load e s i = Inr v
   \<Longrightarrow> suspend_scan e s t i = (if v = t then Inr True else suspend_scan e s t (i + 1))"
  by (subst suspend_scan.simps) simp

lemma suspend_scan_done: "bottom s \<le> i \<Longrightarrow> suspend_scan e s t i = Inr False"
  by (subst suspend_scan.simps) simp

lemma find_slot_step:
  "load e s i = Inr v \<Longrightarrow> find_slot e s i = (if v \<noteq> 0 then find_slot e s (i + 1) else Inr i)"
  by (subst find_slot.simps) simp

lemma find_slot_fault: "load e s i = Inl f \<Longrightarrow> find_slot e s i = Inl f"
  by (subst find_slot.simps) simp

lemma continue_scan_step:
  "load e s i = Inr v
   \<Longrightarrow> continue_scan e s t i = (if v \<noteq> t \<and> i < bottom s then continue_scan e s t (i + 1) else Inr i)"
  by (subst continue_scan.simps) simp

lemma continue_scan_fault: "load e s i = Inl f \<Longrightarrow> continue_scan e s t i = Inl f"
  by (subst continue_scan.simps) simp


lemma find_slot_skip:
  "array s = Some blk \<Longrightarrow> \<forall>k. i \<le> k \<and> k < length blk \<longrightarrow> blk ! k \<noteq> 0 \<Longrightarrow> i \<le> length blk
   \<Longrightarrow> find_slot e s i = find_slot e s (length blk)"
proof (induction "length blk - i" arbitrary: i)
  case 0
  then show ?case by simp
next
  case (Suc n)
  then have lt: "i < length blk" by simp
  with Suc.prems have ne: "blk ! i \<noteq> 0" by simp
  from Suc.hyps(2) have n: "n = length blk - (i + 1)" by simp
  from Suc.prems lt have "find_slot e s (i + 1) = find_slot e s (length blk)"
    by (intro Suc.hyps(1) [OF n]) simp_all
  with ne find_slot_step [OF load_block [OF Suc.prems(1) lt], of e] show ?case by simp
qed

lemma find_slot_lower: "find_slot e s i = Inr j \<Longrightarrow> i \<le> j"
proof (induction e s i rule: find_slot.induct)
  case (1 e s i)
  show ?case
  proof (cases "load e s i")
    case (Inl f)
    with "1.prems" show ?thesis by (simp add: find_slot_fault)
  next
    case (Inr v)
    show ?thesis
    proof (cases "v = 0")
      case True
      with Inr "1.prems" show ?thesis by (simp add: find_slot_step)
    next
      case False
      with Inr "1.prems" have "find_slot e s (i + 1) = Inr j"
        by (simp add: find_slot_step)
      with "1.IH" [OF Inr False] show ?thesis by simp
    qed
  qed
qed

lemma find_slot_full:
  assumes "array s = Some blk" "0 \<notin> set blk"
  shows "find_slot e s 0 = find_slot e s (length blk)"
  using assms by (intro find_slot_skip) (auto simp: in_set_conv_nth)

lemma find_slot_full_Inr:
  assumes "array s = Some blk" "0 \<notin> set blk" "find_slot e s 0 = Inr j"
  shows "length blk \<le> j"
  using assms find_slot_full [OF assms(1,2), of e] find_slot_lower [of e s "length blk" j] by simp

lemma find_slot_end_trap:
  "array s = Some blk \<Longrightarrow> past_end e = [] \<Longrightarrow> find_slot e s (length blk) = Inl (OOB_Read (length blk))"
  by (simp add: find_slot_fault load_trap)

lemma find_slot_end_zero:
  "array s = Some blk \<Longrightarrow> past_end e = 0 # p \<Longrightarrow> find_slot e s (length blk) = Inr (length blk)"
  by (simp add: find_slot_step [OF load_behind])

lemma continue_scan_end:
  assumes "array s = Some blk" "length blk = bottom s"
  shows "continue_scan e s t (bottom s)
           = (if past_end e = [] then Inl (OOB_Read (bottom s)) else Inr (bottom s))"
proof (cases "past_end e")
  case Nil
  with assms show ?thesis by (simp add: continue_scan_fault load_trap)
next
  case (Cons v p)
  from load_behind [OF assms(1) Cons] assms(2) have "load e s (bottom s) = Inr v" by simp
  with Cons show ?thesis by (simp add: continue_scan_step)
qed

lemma continue_scan_absent:
  "array s = Some blk \<Longrightarrow> length blk = bottom s \<Longrightarrow> \<forall>k. i \<le> k \<and> k < bottom s \<longrightarrow> blk ! k \<noteq> t
   \<Longrightarrow> i \<le> bottom s
   \<Longrightarrow> continue_scan e s t i = (if past_end e = [] then Inl (OOB_Read (bottom s)) else Inr (bottom s))"
proof (induction "bottom s - i" arbitrary: i)
  case 0
  then have "i = bottom s" by simp
  with continue_scan_end [OF "0.prems"(1,2)] show ?case by simp
next
  case (Suc n)
  then have lt: "i < bottom s" by simp
  with Suc.prems have il: "i < length blk" and ne: "blk ! i \<noteq> t" by simp_all
  from Suc.hyps(2) have n: "n = bottom s - (i + 1)" by simp
  from Suc.prems lt
  have "continue_scan e s t (i + 1) = (if past_end e = [] then Inl (OOB_Read (bottom s)) else Inr (bottom s))"
    by (intro Suc.hyps(1) [OF n]) simp_all
  with ne lt continue_scan_step [OF load_block [OF Suc.prems(1) il], of e t] show ?case by simp
qed

lemma continue_scan_first:
  "array s = Some blk \<Longrightarrow> k < length blk \<Longrightarrow> blk ! k = t
   \<Longrightarrow> \<forall>j. i \<le> j \<and> j < k \<longrightarrow> blk ! j \<noteq> t \<Longrightarrow> k < bottom s \<Longrightarrow> i \<le> k
   \<Longrightarrow> continue_scan e s t i = Inr k"
proof (induction "k - i" arbitrary: i)
  case 0
  then have ik: "i = k" by simp
  from 0 have "continue_scan e s t k = Inr k"
    by (simp add: continue_scan_step [OF load_block])
  with ik show ?case by simp
next
  case (Suc n)
  then have lt: "i < k" by simp
  with Suc.prems have il: "i < length blk" and ib: "i < bottom s" and ne: "blk ! i \<noteq> t" by simp_all
  from Suc.hyps(2) have n: "n = k - (i + 1)" by simp
  from Suc.prems lt have "continue_scan e s t (i + 1) = Inr k"
    by (intro Suc.hyps(1) [OF n]) simp_all
  with ne ib continue_scan_step [OF load_block [OF Suc.prems(1) il], of e t] show ?case by simp
qed

lemma continue_scan_result:
  "continue_scan e s t i = Inr j \<Longrightarrow> array s = Some blk \<Longrightarrow> j < bottom s \<Longrightarrow> j < length blk
   \<Longrightarrow> i \<le> j \<and> blk ! j = t \<and> (\<forall>k. i \<le> k \<and> k < j \<longrightarrow> blk ! k \<noteq> t)"
proof (induction e s t i rule: continue_scan.induct)
  case (1 e s t i)
  show ?case
  proof (cases "load e s i")
    case (Inl f)
    with "1.prems" show ?thesis by (simp add: continue_scan_fault)
  next
    case (Inr v)
    show ?thesis
    proof (cases "v \<noteq> t \<and> i < bottom s")
      case True
      with Inr "1.prems" have rest: "continue_scan e s t (i + 1) = Inr j"
        by (simp add: continue_scan_step)
      from "1.IH" [OF Inr True rest "1.prems"(2,3,4)]
      have ih: "i + 1 \<le> j" "blk ! j = t" "\<forall>k. i + 1 \<le> k \<and> k < j \<longrightarrow> blk ! k \<noteq> t" by simp_all
      from ih(1) "1.prems" Inr True have here: "blk ! i \<noteq> t" by (simp add: load_def)
      have "blk ! k \<noteq> t" if "i \<le> k" "k < j" for k
      proof (cases "k = i")
        case True
        with here show ?thesis by simp
      next
        case False
        with that ih(3) show ?thesis by simp
      qed
      with ih show ?thesis by simp
    next
      case False
      with Inr "1.prems" have "j = i" by (simp add: continue_scan_step)
      with False Inr "1.prems" show ?thesis by (simp add: load_def)
    qed
  qed
qed

lemma suspend_scan_found:
  "array s = Some blk \<Longrightarrow> k < bottom s \<Longrightarrow> k < length blk \<Longrightarrow> blk ! k = t \<Longrightarrow> i \<le> k
   \<Longrightarrow> suspend_scan e s t i = Inr True"
proof (induction "k - i" arbitrary: i)
  case 0
  then have "i = k" by simp
  with 0 show ?case by (simp add: suspend_scan.simps load_def)
next
  case (Suc n)
  then have lt: "i < k" and step: "suspend_scan e s t (i + 1) = Inr True" by auto
  from lt Suc.prems have "load e s i = Inr (blk ! i)" by (simp add: load_def)
  with lt Suc.prems step show ?case by (simp add: suspend_scan.simps)
qed

lemma suspend_scan_absent:
  "suspend_scan e s t i = Inr False \<Longrightarrow> array s = Some blk \<Longrightarrow> i \<le> k \<Longrightarrow> k < bottom s
   \<Longrightarrow> k < length blk \<Longrightarrow> blk ! k \<noteq> t"
proof (induction e s t i rule: suspend_scan.induct)
  case (1 e s t i)
  from "1.prems" have ib: "i < bottom s" and il: "i < length blk" by auto
  with "1.prems" have ld: "load e s i = Inr (blk ! i)" by (simp add: load_def)
  from "1.prems"(1) ib ld have ne: "blk ! i \<noteq> t" and rest: "suspend_scan e s t (i + 1) = Inr False"
    by (auto simp: suspend_scan.simps [of e s t i] split: if_splits)
  show ?case
  proof (cases "k = i")
    case True
    with ne show ?thesis by simp
  next
    case False
    with "1.prems" have "i + 1 \<le> k" by simp
    with "1.IH" [OF ib ld ne rest] "1.prems" show ?thesis by simp
  qed
qed

lemma suspend_scan_not_found:
  "array s = Some blk \<Longrightarrow> bottom s \<le> length blk \<Longrightarrow> \<forall>k. i \<le> k \<and> k < bottom s \<longrightarrow> blk ! k \<noteq> t
   \<Longrightarrow> suspend_scan e s t i = Inr False"
proof (induction e s t i rule: suspend_scan.induct)
  case (1 e s t i)
  show ?case
  proof (cases "i < bottom s")
    case True
    with "1.prems" have ld: "load e s i = Inr (blk ! i)" and ne: "blk ! i \<noteq> t"
      by (simp_all add: load_def)
    from "1.prems" have "\<forall>k. i + 1 \<le> k \<and> k < bottom s \<longrightarrow> blk ! k \<noteq> t" by simp
    with "1.IH" [OF True ld ne] "1.prems" have "suspend_scan e s t (i + 1) = Inr False" by simp
    with True ld ne show ?thesis by (simp add: suspend_scan.simps [of e s t i])
  next
    case False
    then show ?thesis by (simp add: suspend_scan.simps [of e s t i])
  qed
qed

lemma distinct_filter_update_new:
  "distinct (filter P xs) \<Longrightarrow> t \<notin> set xs \<Longrightarrow> distinct (filter P (xs[i := t]))"
proof (induction xs arbitrary: i)
  case Nil
  then show ?case by simp
next
  case (Cons x xs)
  from Cons.prems have d: "distinct (filter P xs)" and new: "t \<noteq> x" "t \<notin> set xs"
    by (auto split: if_splits)
  show ?case
  proof (cases i)
    case 0
    with d new show ?thesis by simp
  next
    case (Suc n)
    from d new(2) have ih: "distinct (filter P (xs[n := t]))" by (rule Cons.IH)
    have "x \<notin> set (xs[n := t])" if "P x"
    proof
      assume "x \<in> set (xs[n := t])"
      with set_update_subset_insert [of xs n t] new have "x \<in> set xs" by auto
      with that Cons.prems(1) show False by simp
    qed
    with Suc ih show ?thesis by simp
  qed
qed

lemma distinct_filter_update_zero:
  "distinct (filter (\<lambda>t. t \<noteq> (0::nat)) xs) \<Longrightarrow> distinct (filter (\<lambda>t. t \<noteq> 0) (xs[i := 0]))"
proof (induction xs arbitrary: i)
  case Nil
  then show ?case by simp
next
  case (Cons x xs)
  show ?case
  proof (cases i)
    case 0
    with Cons.prems show ?thesis by (auto split: if_splits)
  next
    case (Suc n)
    have "set (xs[n := 0]) \<subseteq> insert 0 (set xs)" by (rule set_update_subset_insert)
    with Suc Cons show ?thesis by (auto split: if_splits)
  qed
qed

lemma pthread_once_done: "once s \<Longrightarrow> pthread_once e s = Inr s"
  by (simp add: pthread_once_def)

lemma realloc_length: "realloc e a n = Some blk \<Longrightarrow> length blk = n"
  by (auto simp: realloc_def Let_def split: if_splits)

lemma grow_succeeds:
  assumes "array s = Some blk" "length blk = bottom s" "realloc_ok e"
  shows "grow e s
           = (if overrun_lands e
              then Inr (s\<lparr>bottom := bottom s + 1, array := Some (blk @ [fresh e]),
                         overruns := overruns s @ [(bottom s + 1, null_pthread)]\<rparr>)
              else Inl (Fault (OOB_Write (bottom s + 1))
                     (s\<lparr>bottom := bottom s + 1, array := Some (blk @ [fresh e])\<rparr>)))"
  using assms by (simp add: grow_def realloc_def store_def)

lemma grow_fails:
  "\<not> realloc_ok e \<Longrightarrow> grow e s = Inl (Return (errno e) (s\<lparr>bottom := bottom s + 1, array := None\<rparr>))"
  by (simp add: grow_def realloc_def)

lemma grow_Inr:
  assumes "grow e s = Inr s2" "array s = Some blk" "length blk = bottom s"
  shows "realloc_ok e \<and> overrun_lands e
       \<and> s2 = s\<lparr>bottom := bottom s + 1, array := Some (blk @ [fresh e]),
                 overruns := overruns s @ [(bottom s + 1, null_pthread)]\<rparr>"
proof (cases "realloc_ok e")
  case True
  from grow_succeeds [OF assms(2,3) True] assms(1) True show ?thesis
    by (cases "overrun_lands e") simp_all
next
  case False
  with assms(1) show ?thesis by (simp add: grow_fails)
qed

lemma grow_Return:
  "grow e s = Inl (Return r s') \<Longrightarrow> \<not> realloc_ok e \<and> r = errno e \<and> s' = s\<lparr>bottom := bottom s + 1, array := None\<rparr>"
proof (cases "realloc_ok e")
  case True
  assume g: "grow e s = Inl (Return r s')"
  from True obtain blk where blk: "realloc e (array s) (bottom s + 1) = Some blk"
    by (simp add: realloc_def Let_def)
  from realloc_length [OF blk] blk g show ?thesis
    by (auto simp: grow_def store_def Let_def split: if_splits)
next
  case False
  assume "grow e s = Inl (Return r s')"
  with False show ?thesis by (simp add: grow_fails)
qed

lemma signal_and_record_Return [consumes 1, case_names kill_failed recorded strayed]:
  assumes "signal_and_record e s t i = Return r s'"
  obtains "kill_status e \<noteq> 0" "r = kill_status e" "s' = s\<lparr>sentinel := 0\<rparr>"
  | blk where "kill_status e = 0" "handler_runs e" "r = unlock_status e"
      "array s = Some blk" "i < length blk"
      "s' = s\<lparr>sentinel := 1, delivered := delivered s @ [(t, SIGUSR1)],
               array := Some (blk[i := t])\<rparr>"
  | blk where "kill_status e = 0" "handler_runs e" "r = unlock_status e" "overrun_lands e"
      "array s = Some blk" "length blk \<le> i"
      "s' = s\<lparr>sentinel := 1, delivered := delivered s @ [(t, SIGUSR1)],
               overruns := overruns s @ [(i, t)]\<rparr>"
proof (cases "kill_status e = 0")
  case False
  with assms have "r = kill_status e" "s' = s\<lparr>sentinel := 0\<rparr>"
    by (simp_all add: signal_and_record_def)
  with False show ?thesis by (rule that(1))
next
  case kill: True
  with assms have run: "handler_runs e"
    by (cases "handler_runs e") (simp_all add: signal_and_record_def)
  from assms kill run obtain blk where blk: "array s = Some blk"
    by (cases "array s") (simp_all add: signal_and_record_def store_def)
  show ?thesis
  proof (cases "i < length blk")
    case True
    with assms kill run blk have "r = unlock_status e"
      "s' = s\<lparr>sentinel := 1, delivered := delivered s @ [(t, SIGUSR1)],
               array := Some (blk[i := t])\<rparr>"
      by (auto simp: signal_and_record_def store_def)
    with kill run blk True show ?thesis using that(2) by blast
  next
    case False
    with assms kill run blk have lands: "overrun_lands e"
      by (cases "overrun_lands e") (simp_all add: signal_and_record_def store_def)
    with assms kill run blk False have "r = unlock_status e"
      "s' = s\<lparr>sentinel := 1, delivered := delivered s @ [(t, SIGUSR1)],
               overruns := overruns s @ [(i, t)]\<rparr>"
      by (auto simp: signal_and_record_def store_def)
    with kill run blk False lands show ?thesis using that(3) by (simp add: not_less)
  qed
qed

lemma thd_suspend_Return_cases [consumes 1, case_names once_failed lock_failed found alloc_failed signalled]:
  assumes "thd_suspend e s t = Return r s'"
  obtains "once_status e \<noteq> 0" "r = once_status e" "s' = s"
  | s1 where "once_status e = 0" "pthread_once e s = Inr s1" "lock_status e \<noteq> 0"
      "r = lock_status e" "s' = s1"
  | s1 where "once_status e = 0" "pthread_once e s = Inr s1" "lock_status e = 0"
      "suspend_scan e s1 t 0 = Inr True" "r = unlock_status e" "s' = s1"
  | s1 where "once_status e = 0" "pthread_once e s = Inr s1" "lock_status e = 0"
      "suspend_scan e s1 t 0 = Inr False" "find_slot e s1 0 = Inr (bottom s1)"
      "\<not> realloc_ok e" "r = errno e" "s' = s1\<lparr>bottom := bottom s1 + 1, array := None\<rparr>"
  | s1 i s2 where "once_status e = 0" "pthread_once e s = Inr s1" "lock_status e = 0"
      "suspend_scan e s1 t 0 = Inr False" "find_slot e s1 0 = Inr i"
      "if i = bottom s1 then grow e s1 = Inr s2 else s2 = s1"
      "signal_and_record e s2 t i = Return r s'"
proof (cases "once_status e = 0")
  case False
  with assms have "r = once_status e" "s' = s" by (simp_all add: thd_suspend_def)
  with False show ?thesis by (rule that(1))
next
  case once0: True
  show ?thesis
  proof (cases "pthread_once e s")
    case (Inl a)
    with assms once0 show ?thesis by (simp add: thd_suspend_def)
  next
    case (Inr s1)
    show ?thesis
    proof (cases "lock_status e = 0")
      case False
      with assms once0 Inr have "r = lock_status e" "s' = s1" by (simp_all add: thd_suspend_def)
      with once0 Inr False show ?thesis by (rule that(2))
    next
      case lock0: True
      show ?thesis
      proof (cases "suspend_scan e s1 t 0")
        case (Inl f)
        with assms once0 Inr lock0 show ?thesis by (simp add: thd_suspend_def)
      next
        case scan: (Inr b)
        show ?thesis
        proof (cases b)
          case True
          with assms once0 Inr lock0 scan have "r = unlock_status e" "s' = s1"
            by (simp_all add: thd_suspend_def)
          moreover from scan True have "suspend_scan e s1 t 0 = Inr True" by simp
          ultimately show ?thesis using once0 Inr lock0 that(3) by blast
        next
          case False
          with scan have absent: "suspend_scan e s1 t 0 = Inr False" by simp
          show ?thesis
          proof (cases "find_slot e s1 0")
            case (Inl f)
            with assms once0 Inr lock0 absent show ?thesis by (simp add: thd_suspend_def)
          next
            case slot: (Inr i)
            show ?thesis
            proof (cases "i = bottom s1")
              case full: True
              show ?thesis
              proof (cases "grow e s1")
                case (Inl out)
                with assms once0 Inr lock0 absent slot full
                have "grow e s1 = Inl (Return r s')" by (simp add: thd_suspend_def)
                from grow_Return [OF this]
                have "\<not> realloc_ok e" "r = errno e"
                  "s' = s1\<lparr>bottom := bottom s1 + 1, array := None\<rparr>"
                  by simp_all
                moreover from slot full have "find_slot e s1 0 = Inr (bottom s1)" by simp
                ultimately show ?thesis using once0 Inr lock0 absent that(4) by blast
              next
                case grown: (Inr s2)
                with assms once0 Inr lock0 absent slot full
                have "signal_and_record e s2 t i = Return r s'" by (simp add: thd_suspend_def)
                moreover from grown full
                have "if i = bottom s1 then grow e s1 = Inr s2 else s2 = s1" by simp
                ultimately show ?thesis using once0 Inr lock0 absent slot that(5) by blast
              qed
            next
              case ne: False
              with assms once0 Inr lock0 absent slot
              have "signal_and_record e s1 t i = Return r s'" by (simp add: thd_suspend_def)
              moreover from ne have "if i = bottom s1 then grow e s1 = Inr s1 else s1 = s1"
                by simp
              ultimately show ?thesis using once0 Inr lock0 absent slot that(5) by blast
            qed
          qed
        qed
      qed
    qed
  qed
qed

subsection \<open>The concrete states, evaluated\<close>

lemmas eval_defs = thd_suspend_def thd_continue_def pthread_once_def suspend_init_routine_def
  signal_and_record_def grow_def realloc_def store_def load_def null_pthread_def
  suspend_scan.simps find_slot.simps continue_scan.simps quiet_env_def initial_state_def Let_def

lemma replicate_ten: "replicate 10 x = [x, x, x, x, x, x, x, x, x, x]"
  by (simp add: numeral_eq_Suc)

lemma one_suspended_eq:
  "one_suspended = \<lparr>array = Some [7, 0, 0, 0, 0, 0, 0, 0, 0, 0], bottom = 10, inited = True,
     sentinel = 1, once = True, delivered = [(7, SIGUSR1)], overruns = []\<rparr>"
  by (simp add: one_suspended_def eval_defs replicate_ten)

lemma ten_suspended_eq:
  "ten_suspended = \<lparr>array = Some [1, 2, 3, 4, 5, 6, 7, 8, 9, 10], bottom = 10, inited = True,
     sentinel = 1, once = True,
     delivered = [(1, SIGUSR1), (2, SIGUSR1), (3, SIGUSR1), (4, SIGUSR1), (5, SIGUSR1),
       (6, SIGUSR1), (7, SIGUSR1), (8, SIGUSR1), (9, SIGUSR1), (10, SIGUSR1)],
     overruns = []\<rparr>"
  by (simp add: ten_suspended_def eval_defs replicate_ten)

lemma one_resumed_eq:
  "one_resumed = \<lparr>array = Some [0, 0, 0, 0, 0, 0, 0, 0, 0, 0], bottom = 10, inited = True,
     sentinel = 1, once = True, delivered = [(7, SIGUSR1), (7, SIGUSR2)], overruns = []\<rparr>"
  by (simp add: one_resumed_def one_suspended_eq eval_defs)

subsection \<open>The outcomes of thd_continue\<close>

lemma first_occurrence:
  assumes "t \<in> set (take n blk)"
  obtains k where "k < n" "k < length blk" "blk ! k = t" "t \<notin> set (take k blk)"
proof -
  let ?P = "\<lambda>k. k < n \<and> k < length blk \<and> blk ! k = t"
  define k where "k = (LEAST k. ?P k)"
  from assms obtain k0 where "k0 < length (take n blk)" "take n blk ! k0 = t"
    by (auto simp: in_set_conv_nth)
  then have "?P k0" by simp
  then have k: "?P k" unfolding k_def by (rule LeastI)
  have "t \<notin> set (take k blk)"
  proof
    assume "t \<in> set (take k blk)"
    then obtain j where "j < length (take k blk)" "take k blk ! j = t"
      by (auto simp: in_set_conv_nth)
    with k have "j < k" "?P j" by simp_all
    then show False unfolding k_def by (auto dest: not_less_Least)
  qed
  with k that show ?thesis by blast
qed

lemma not_in_take_nth: "t \<notin> set (take k blk) \<Longrightarrow> k \<le> length blk \<Longrightarrow> j < k \<Longrightarrow> blk ! j \<noteq> t"
  by (metis in_set_conv_nth length_take min.absorb2 nth_take)

lemma thd_continue_absent:
  assumes "lock_status e = 0" "inited s" "array s = Some blk" "length blk = bottom s"
    "t \<notin> set blk"
  shows "thd_continue e s t
           = (if past_end e = [] then Fault (OOB_Read (bottom s)) s else Return 0 s)"
proof -
  from assms(4,5) have "\<forall>k. 0 \<le> k \<and> k < bottom s \<longrightarrow> blk ! k \<noteq> t" by auto
  from continue_scan_absent [OF assms(3,4) this, of e]
  have "continue_scan e s t 0 = (if past_end e = [] then Inl (OOB_Read (bottom s)) else Inr (bottom s))"
    by simp
  with assms(1,2) show ?thesis by (simp add: thd_continue_def)
qed

lemma thd_continue_present:
  assumes "lock_status e = 0" "inited s" "array s = Some blk"
    "k < bottom s" "k < length blk" "blk ! k = t" "t \<notin> set (take k blk)"
  shows "thd_continue e s t
           = (if kill_status e \<noteq> 0 then Return (kill_status e) s
              else Return (unlock_status e)
                     (s\<lparr>delivered := delivered s @ [(t, SIGUSR2)], array := Some (blk[k := 0])\<rparr>))"
proof -
  from assms(5,7) have "\<forall>j. 0 \<le> j \<and> j < k \<longrightarrow> blk ! j \<noteq> t"
    by (auto dest: not_in_take_nth)
  from continue_scan_first [OF assms(3,5,6) this assms(4), of e]
  have "continue_scan e s t 0 = Inr k" by simp
  with assms show ?thesis by (simp add: thd_continue_def store_def)
qed

lemma thd_continue_cases [case_names unchanged stray cleared]:
  obtains "final (thd_continue e s t) = s"
  | i where "kill_status e = 0" "continue_scan e s t 0 = Inr i" "i < bottom s"
      "\<not> (\<exists>blk. array s = Some blk \<and> i < length blk)"
      "final (thd_continue e s t) = s\<lparr>delivered := delivered s @ [(t, SIGUSR2)]\<rparr>
       \<or> final (thd_continue e s t)
           = s\<lparr>delivered := delivered s @ [(t, SIGUSR2)], overruns := overruns s @ [(i, 0)]\<rparr>"
  | blk i where "kill_status e = 0" "array s = Some blk" "i < bottom s" "i < length blk"
      "blk ! i = t" "t \<notin> set (take i blk)"
      "thd_continue e s t = Return (unlock_status e)
         (s\<lparr>delivered := delivered s @ [(t, SIGUSR2)], array := Some (blk[i := 0])\<rparr>)"
proof (cases "lock_status e = 0 \<and> inited s")
  case False
  then have "final (thd_continue e s t) = s" by (auto simp: thd_continue_def)
  then show ?thesis by (rule that(1))
next
  case True
  show ?thesis
  proof (cases "continue_scan e s t 0")
    case (Inl f)
    with True have "final (thd_continue e s t) = s" by (simp add: thd_continue_def)
    then show ?thesis by (rule that(1))
  next
    case (Inr i)
    show ?thesis
    proof (cases "bottom s \<le> i \<or> kill_status e \<noteq> 0")
      case True
      with \<open>lock_status e = 0 \<and> inited s\<close> Inr have "final (thd_continue e s t) = s"
        by (auto simp: thd_continue_def)
      then show ?thesis by (rule that(1))
    next
      case False
      then have ib: "i < bottom s" and kill: "kill_status e = 0" by simp_all
      show ?thesis
      proof (cases "\<exists>blk. array s = Some blk \<and> i < length blk")
        case True
        then obtain blk where blk: "array s = Some blk" "i < length blk" by blast
        from continue_scan_result [OF Inr blk(1) ib blk(2)]
        have hit: "blk ! i = t" and before: "\<forall>k. k < i \<longrightarrow> blk ! k \<noteq> t" by simp_all
        from before blk(2) have first: "t \<notin> set (take i blk)"
          by (auto simp: in_set_conv_nth)
        from \<open>lock_status e = 0 \<and> inited s\<close> Inr ib kill blk
        have "thd_continue e s t = Return (unlock_status e)
                (s\<lparr>delivered := delivered s @ [(t, SIGUSR2)], array := Some (blk[i := 0])\<rparr>)"
          by (simp add: thd_continue_def store_def)
        with kill blk(1) ib blk(2) hit first show ?thesis by (rule that(3))
      next
        case False
        have "final (thd_continue e s t) = s\<lparr>delivered := delivered s @ [(t, SIGUSR2)]\<rparr>
          \<or> final (thd_continue e s t)
              = s\<lparr>delivered := delivered s @ [(t, SIGUSR2)], overruns := overruns s @ [(i, 0)]\<rparr>"
        proof (cases "array s")
          case None
          with \<open>lock_status e = 0 \<and> inited s\<close> Inr ib kill show ?thesis
            by (simp add: thd_continue_def store_def)
        next
          case (Some blk)
          with False have "\<not> i < length blk" by simp
          with Some \<open>lock_status e = 0 \<and> inited s\<close> Inr ib kill show ?thesis
            by (cases "overrun_lands e") (simp_all add: thd_continue_def store_def)
        qed
        with kill Inr ib False show ?thesis by (rule that(2))
      qed
    qed
  qed
qed

subsection \<open>thd_suspend on a registry without an empty slot\<close>

lemma suspend_scan_new:
  assumes "array s = Some blk" "length blk = bottom s" "t \<notin> set blk"
  shows "suspend_scan e s t 0 = Inr False"
proof -
  from assms(2,3) have "\<forall>k. 0 \<le> k \<and> k < bottom s \<longrightarrow> blk ! k \<noteq> t" by auto
  with assms(1,2) show ?thesis by (intro suspend_scan_not_found) simp_all
qed

lemma thd_suspend_full_trap:
  assumes "once s" "once_status e = 0" "lock_status e = 0"
    "array s = Some blk" "length blk = bottom s" "0 \<notin> set blk" "t \<notin> set blk"
    "past_end e = []"
  shows "thd_suspend e s t = Fault (OOB_Read (bottom s)) s"
proof -
  from find_slot_full [OF assms(4,6), of e] find_slot_end_trap [OF assms(4,8)] assms(5)
  have "find_slot e s 0 = Inl (OOB_Read (bottom s))" by simp
  with assms(1-3) suspend_scan_new [OF assms(4,5,7), of e] show ?thesis
    by (simp add: thd_suspend_def pthread_once_done)
qed

lemma thd_suspend_full_grow:
  assumes "once s" "once_status e = 0" "lock_status e = 0"
    "array s = Some blk" "length blk = bottom s" "0 \<notin> set blk" "t \<notin> set blk"
    "past_end e = 0 # p"
  shows "thd_suspend e s t
           = (if \<not> realloc_ok e
              then Return (errno e) (s\<lparr>bottom := bottom s + 1, array := None\<rparr>)
              else if overrun_lands e
              then signal_and_record e
                     (s\<lparr>bottom := bottom s + 1, array := Some (blk @ [fresh e]),
                        overruns := overruns s @ [(bottom s + 1, null_pthread)]\<rparr>) t (bottom s)
              else Fault (OOB_Write (bottom s + 1))
                     (s\<lparr>bottom := bottom s + 1, array := Some (blk @ [fresh e])\<rparr>))"
proof -
  from find_slot_full [OF assms(4,6), of e] find_slot_end_zero [OF assms(4,8)] assms(5)
  have slot: "find_slot e s 0 = Inr (bottom s)" by simp
  show ?thesis
  proof (cases "realloc_ok e")
    case True
    from grow_succeeds [OF assms(4,5) True] True assms(1-3) slot
      suspend_scan_new [OF assms(4,5,7), of e]
    show ?thesis by (simp add: thd_suspend_def pthread_once_done)
  next
    case False
    from grow_fails [OF False, of s] False assms(1-3) slot
      suspend_scan_new [OF assms(4,5,7), of e]
    show ?thesis by (simp add: thd_suspend_def pthread_once_done)
  qed
qed

text \<open>
  Where the word behind the ten slots reads \<open>0\<close> and the clearing write behind the
  grown block lands, the eleventh suspension goes through: the call returns \<open>0\<close>
  with eleven slots, thread 11 in the last.
\<close>

lemma thd_suspend_eleventh:
  "thd_suspend (quiet_env\<lparr>past_end := [0], overrun_lands := True\<rparr>) ten_suspended 11
     = Return 0 (ten_suspended\<lparr>bottom := 11,
                   array := Some [1, 2, 3, 4, 5, 6, 7, 8, 9, 10, 11],
                   delivered := delivered ten_suspended @ [(11, SIGUSR1)],
                   overruns := [(11, 0)]\<rparr>)"
  by (simp add: ten_suspended_eq eval_defs)

subsection \<open>The invariant of the registry\<close>

lemma registry_inv_initial: "registry_inv initial_state"
  by (simp add: registry_inv_def sized_def registry_unique_def slots_recorded_def slots_def
      initial_state_def)

lemma registry_inv_frame:
  "registry_inv s \<Longrightarrow> array s' = array s \<Longrightarrow> bottom s' = bottom s
   \<Longrightarrow> set (delivered s) \<subseteq> set (delivered s') \<Longrightarrow> registry_inv s'"
  by (auto simp: registry_inv_def sized_def registry_unique_def slots_recorded_def slots_def
      list_all_iff split: option.splits)

lemma registry_inv_no_array: "array s = None \<Longrightarrow> registry_inv s"
  by (simp add: registry_inv_def sized_def registry_unique_def slots_recorded_def slots_def)

lemma registry_inv_pthread_once:
  assumes "registry_inv s" "pthread_once e s = Inr s1"
  shows "registry_inv s1"
proof (cases "once s")
  case True
  with assms show ?thesis by (simp add: pthread_once_def)
next
  case False
  with assms(2) have "array s1 = (if calloc_ok e then Some (replicate 10 0) else None)"
    "bottom s1 = 10"
    by (auto simp: pthread_once_def suspend_init_routine_def Let_def split: if_splits)
  then show ?thesis
    by (simp add: registry_inv_def sized_def registry_unique_def slots_recorded_def slots_def
        list_all_iff)
qed

lemma registry_inv_record:
  assumes "registry_inv s" "array s = Some blk" "t \<notin> set blk"
  shows "registry_inv (s\<lparr>sentinel := v, delivered := delivered s @ [(t, SIGUSR1)],
                         array := Some (blk[i := t])\<rparr>)"
proof -
  from assms(1,2) have d: "distinct (filter (\<lambda>t. t \<noteq> 0) blk)"
    and r: "\<forall>x\<in>set blk. x = 0 \<or> (x, SIGUSR1) \<in> set (delivered s)"
    and l: "length blk = bottom s"
    by (simp_all add: registry_inv_def sized_def registry_unique_def slots_recorded_def slots_def
        list_all_iff)
  from d assms(3) have "distinct (filter (\<lambda>t. t \<noteq> 0) (blk[i := t]))"
    by (rule distinct_filter_update_new)
  moreover from r set_update_subset_insert [of blk i t]
  have "\<forall>x\<in>set (blk[i := t]). x = 0 \<or> (x, SIGUSR1) \<in> set (delivered s @ [(t, SIGUSR1)])"
    by auto
  ultimately show ?thesis using l
    by (simp add: registry_inv_def sized_def registry_unique_def slots_recorded_def slots_def
        list_all_iff)
qed

lemma registry_inv_clear:
  assumes "registry_inv s" "array s = Some blk"
  shows "registry_inv (s\<lparr>delivered := delivered s @ [(t, SIGUSR2)], array := Some (blk[i := 0])\<rparr>)"
proof -
  from assms(1,2) have d: "distinct (filter (\<lambda>t. t \<noteq> 0) blk)"
    and r: "\<forall>x\<in>set blk. x = 0 \<or> (x, SIGUSR1) \<in> set (delivered s)"
    and l: "length blk = bottom s"
    by (simp_all add: registry_inv_def sized_def registry_unique_def slots_recorded_def slots_def
        list_all_iff)
  from d have "distinct (filter (\<lambda>t. t \<noteq> 0) (blk[i := 0]))"
    by (rule distinct_filter_update_zero)
  moreover from r set_update_subset_insert [of blk i 0]
  have "\<forall>x\<in>set (blk[i := 0]). x = 0 \<or> (x, SIGUSR1) \<in> set (delivered s @ [(t, SIGUSR2)])"
    by auto
  ultimately show ?thesis using l
    by (simp add: registry_inv_def sized_def registry_unique_def slots_recorded_def slots_def
        list_all_iff)
qed

lemma registry_inv_append:
  assumes "registry_inv s" "array s = Some blk" "t \<notin> set blk"
    "array s' = Some (blk @ [t])" "bottom s' = bottom s + 1"
    "delivered s' = delivered s @ [(t, SIGUSR1)]"
  shows "registry_inv s'"
proof -
  from assms(1,2) have d: "distinct (filter (\<lambda>t. t \<noteq> 0) blk)"
    and r: "\<forall>x\<in>set blk. x = 0 \<or> (x, SIGUSR1) \<in> set (delivered s)"
    and l: "length blk = bottom s"
    by (simp_all add: registry_inv_def sized_def registry_unique_def slots_recorded_def slots_def
        list_all_iff)
  from d assms(3) have "distinct (filter (\<lambda>t. t \<noteq> 0) (blk @ [t]))" by auto
  moreover from r
  have "\<forall>x\<in>set (blk @ [t]). x = 0 \<or> (x, SIGUSR1) \<in> set (delivered s @ [(t, SIGUSR1)])"
    by auto
  ultimately show ?thesis using l assms(4-6)
    by (simp add: registry_inv_def sized_def registry_unique_def slots_recorded_def slots_def
        list_all_iff)
qed

lemma find_slot_Inr_array: "find_slot e s i = Inr j \<Longrightarrow> \<exists>blk. array s = Some blk"
  by (cases "array s") (simp_all add: find_slot_fault load_def)

text \<open>
  A returning \<^verbatim>\<open>thd_suspend\<close> keeps the invariant where the signal is delivered or
  no write behind the block lands. What is left out is the call that grows the
  registry and then cannot deliver the signal: the registry grows only where the
  clearing write behind the block lands.
\<close>

lemma registry_inv_suspend:
  assumes "registry_inv s" "thd_suspend e s t = Return r s'"
    "kill_status e = 0 \<or> \<not> overrun_lands e"
  shows "registry_inv s'"
  using assms(2)
proof (cases rule: thd_suspend_Return_cases)
  case once_failed
  with assms(1) show ?thesis by simp
next
  case (lock_failed s1)
  with assms(1) show ?thesis by (simp add: registry_inv_pthread_once)
next
  case (found s1)
  with assms(1) show ?thesis by (simp add: registry_inv_pthread_once)
next
  case (alloc_failed s1)
  then show ?thesis by (simp add: registry_inv_no_array)
next
  case (signalled s1 i s2)
  from registry_inv_pthread_once [OF assms(1) signalled(2)] have inv1: "registry_inv s1" .
  from find_slot_Inr_array [OF signalled(5)] obtain blk where blk: "array s1 = Some blk" ..
  with inv1 have len: "length blk = bottom s1" by (simp add: registry_inv_def sized_def)
  have new: "t \<notin> set blk"
  proof
    assume "t \<in> set blk"
    then obtain k where "k < length blk" "blk ! k = t" by (auto simp: in_set_conv_nth)
    with suspend_scan_absent [OF signalled(4) blk, of k] len show False by simp
  qed
  show ?thesis
  proof (cases "i = bottom s1")
    case False
    with signalled(6) have s2: "s2 = s1" by simp
    from signalled(7) show ?thesis
    proof (cases rule: signal_and_record_Return)
      case kill_failed
      from inv1 have "registry_inv (s1\<lparr>sentinel := 0\<rparr>)" by (rule registry_inv_frame) simp_all
      with kill_failed s2 show ?thesis by simp
    next
      case (recorded blk')
      with s2 blk have "blk' = blk" by simp
      with registry_inv_record [OF inv1 blk new] recorded(6) s2 show ?thesis by simp
    next
      case (strayed blk')
      from inv1 have "registry_inv (s1\<lparr>sentinel := 1, delivered := delivered s1 @ [(t, SIGUSR1)],
                                        overruns := overruns s1 @ [(i, t)]\<rparr>)"
        by (rule registry_inv_frame) auto
      with strayed(7) s2 show ?thesis by simp
    qed
  next
    case True
    with signalled(6) have "grow e s1 = Inr s2" by simp
    from grow_Inr [OF this blk len]
    have lands: "overrun_lands e"
      and s2: "s2 = s1\<lparr>bottom := bottom s1 + 1, array := Some (blk @ [fresh e]),
                       overruns := overruns s1 @ [(bottom s1 + 1, null_pthread)]\<rparr>"
      by simp_all
    from signalled(7) show ?thesis
    proof (cases rule: signal_and_record_Return)
      case kill_failed
      with assms(3) lands show ?thesis by simp
    next
      case (recorded blk')
      from recorded(4) s2 have blk': "blk' = blk @ [fresh e]" by simp
      have "(blk @ [fresh e])[length blk := t] = blk @ [t]" by simp
      with True len have "(blk @ [fresh e])[i := t] = blk @ [t]" by simp
      with recorded(6) blk' s2
      have "array s' = Some (blk @ [t])" "bottom s' = bottom s1 + 1"
        "delivered s' = delivered s1 @ [(t, SIGUSR1)]"
        by simp_all
      with inv1 blk new show ?thesis by (rule registry_inv_append)
    next
      case (strayed blk')
      from strayed(5) s2 have "blk' = blk @ [fresh e]" by simp
      with strayed(6) True len show ?thesis by simp
    qed
  qed
qed

lemma registry_inv_continue:
  assumes "registry_inv s" "thd_continue e s t = Return r s'"
  shows "registry_inv s'"
proof (cases rule: thd_continue_cases [where e = e and s = s and t = t])
  case unchanged
  with assms show ?thesis by simp
next
  case (stray i)
  from assms(2) have s': "final (thd_continue e s t) = s'" by simp
  from stray(5) show ?thesis
  proof
    assume "final (thd_continue e s t) = s\<lparr>delivered := delivered s @ [(t, SIGUSR2)]\<rparr>"
    with s' have "s' = s\<lparr>delivered := delivered s @ [(t, SIGUSR2)]\<rparr>" by simp
    then have "array s' = array s" "bottom s' = bottom s" "set (delivered s) \<subseteq> set (delivered s')"
      by auto
    with assms(1) show ?thesis by (rule registry_inv_frame)
  next
    assume "final (thd_continue e s t)
              = s\<lparr>delivered := delivered s @ [(t, SIGUSR2)], overruns := overruns s @ [(i, 0)]\<rparr>"
    with s' have "s' = s\<lparr>delivered := delivered s @ [(t, SIGUSR2)],
                          overruns := overruns s @ [(i, 0)]\<rparr>" by simp
    then have "array s' = array s" "bottom s' = bottom s" "set (delivered s) \<subseteq> set (delivered s')"
      by auto
    with assms(1) show ?thesis by (rule registry_inv_frame)
  qed
next
  case (cleared blk i)
  from registry_inv_clear [OF assms(1) cleared(2)] cleared(7) assms(2) show ?thesis by simp
qed

section \<open>The claims\<close>

subsection \<open>C1: suspending a suspended thread\<close>

lemma suspend_recorded:
  assumes "once s" "array s = Some blk" "t \<in> set (take (bottom s) blk)"
    "once_status e = 0" "lock_status e = 0"
  shows "thd_suspend e s t = Return (unlock_status e) s"
proof -
  from assms(3) obtain k where "k < length (take (bottom s) blk)" "take (bottom s) blk ! k = t"
    by (auto simp: in_set_conv_nth)
  then have k: "k < bottom s" "k < length blk" "blk ! k = t" by simp_all
  from suspend_scan_found [OF assms(2) k] have "suspend_scan e s t 0 = Inr True" by simp
  with assms show ?thesis by (simp add: thd_suspend_def pthread_once_done)
qed

lemma suspend_scan_hit:
  "suspend_scan e s t i = Inr True \<Longrightarrow> sized s
   \<Longrightarrow> \<exists>blk k. array s = Some blk \<and> i \<le> k \<and> k < bottom s \<and> blk ! k = t"
proof (induction e s t i rule: suspend_scan.induct)
  case (1 e s t i)
  from "1.prems"(1) have ib: "i < bottom s"
    by (cases "i < bottom s") (simp_all add: suspend_scan_done)
  from "1.prems"(1) ib obtain v where ld: "load e s i = Inr v"
    by (cases "load e s i") (simp_all add: suspend_scan.simps [of e s t i])
  then obtain blk where blk: "array s = Some blk"
    by (cases "array s") (simp_all add: load_def)
  with "1.prems"(2) ib have "i < length blk" by (simp add: sized_def)
  with blk ld have v: "v = blk ! i" by (simp add: load_def)
  show ?case
  proof (cases "v = t")
    case True
    with blk ib v show ?thesis by auto
  next
    case False
    with "1.prems"(1) ib ld have "suspend_scan e s t (i + 1) = Inr True"
      by (simp add: suspend_scan_step)
    from "1.IH" [OF ib ld False this "1.prems"(2)] show ?thesis
      by (metis Suc_eq_plus1 Suc_leD)
  qed
qed

lemma pthread_once_sized:
  assumes "sized s" "pthread_once e s = Inr s1"
  shows "sized s1 \<and> once s1"
proof (cases "once s")
  case True
  with assms show ?thesis by (simp add: pthread_once_def)
next
  case False
  with assms(2) show ?thesis
    by (auto simp: pthread_once_def suspend_init_routine_def Let_def sized_def split: if_splits)
qed

lemma thd_suspend_success_recorded:
  assumes "sized s" "thd_suspend e s t = Return 0 s'" "errno e \<noteq> 0" "\<not> overrun_lands e"
  shows "once s' \<and> (\<exists>blk. array s' = Some blk \<and> t \<in> set (take (bottom s') blk))"
  using assms(2)
proof (cases rule: thd_suspend_Return_cases)
  case once_failed
  then show ?thesis by simp
next
  case (lock_failed s1)
  then show ?thesis by simp
next
  case (found s1)
  from pthread_once_sized [OF assms(1) found(2)] have s1: "sized s1" "once s1" by simp_all
  from suspend_scan_hit [OF found(4) s1(1)]
  obtain blk k where k: "array s1 = Some blk" "k < bottom s1" "blk ! k = t" by blast
  with s1(1) have "k < length (take (bottom s1) blk)" "take (bottom s1) blk ! k = t"
    by (simp_all add: sized_def)
  then have "t \<in> set (take (bottom s1) blk)" by (metis nth_mem)
  with k(1) s1(2) found(6) show ?thesis by simp
next
  case (alloc_failed s1)
  with assms(3) show ?thesis by simp
next
  case (signalled s1 i s2)
  from pthread_once_sized [OF assms(1) signalled(2)] have s1: "sized s1" "once s1" by simp_all
  from find_slot_Inr_array [OF signalled(5)] obtain blk where blk: "array s1 = Some blk" ..
  with s1(1) have len: "length blk = bottom s1" by (simp add: sized_def)
  have s2: "s2 = s1"
  proof (cases "i = bottom s1")
    case True
    with signalled(6) have "grow e s1 = Inr s2" by simp
    from grow_Inr [OF this blk len] assms(4) show ?thesis by simp
  next
    case False
    with signalled(6) show ?thesis by simp
  qed
  from signalled(7) show ?thesis
  proof (cases rule: signal_and_record_Return)
    case kill_failed
    then show ?thesis by simp
  next
    case (recorded blk')
    with s2 blk have "blk' = blk" by simp
    with recorded(5) have "t \<in> set (blk[i := t])" by (simp add: set_update_memI)
    with len s1(2) s2 recorded(6) \<open>blk' = blk\<close> show ?thesis by simp
  next
    case (strayed blk')
    with assms(4) show ?thesis by simp
  qed
qed

lemma thd_suspend_twice:
  assumes "sized s" "thd_suspend e s t = Return 0 s'" "errno e \<noteq> 0" "\<not> overrun_lands e"
    "once_status e' = 0" "lock_status e' = 0"
  shows "thd_suspend e' s' t = Return (unlock_status e') s'"
proof -
  from thd_suspend_success_recorded [OF assms(1-4)]
  obtain blk where "once s'" "array s' = Some blk" "t \<in> set (take (bottom s') blk)" by blast
  then show ?thesis using assms(5,6) by (rule suspend_recorded)
qed

text \<open>
  C1. In an initialised package, when the target \<open>t\<close> stands in one of the
  \<^verbatim>\<open>bottom\<close> slots of the registry and \<^verbatim>\<open>pthread_once\<close> and the mutex calls succeed,
  \<^verbatim>\<open>thd_suspend (t)\<close> returns \<open>0\<close> and leaves every global as it was: the array, the
  capacity \<^verbatim>\<open>bottom\<close>, the sentinel, and the list of signals sent, so no second
  \<^verbatim>\<open>SIGUSR1\<close> goes out. What can be observed after the call is what the earlier
  suspension left. Where no write goes behind the block, a call of
  \<^verbatim>\<open>thd_suspend (t)\<close> that returned \<open>0\<close> leaves \<open>t\<close> recorded in this way, so a
  second call right after it is such a call (\<open>thd_suspend_twice\<close>).
\<close>

theorem thd_suspend_idempotent:
  assumes "once s" "array s = Some blk" "t \<in> set (take (bottom s) blk)"
    "once_status e = 0" "lock_status e = 0" "unlock_status e = 0"
  shows "thd_suspend e s t = Return 0 s"
  using suspend_recorded [OF assms(1-5)] assms(6) by simp

theorem thd_suspend_idempotent_witness:
  "once one_suspended \<and> array one_suspended = Some [7, 0, 0, 0, 0, 0, 0, 0, 0, 0]
   \<and> 7 \<in> set (take (bottom one_suspended) [7, 0, 0, 0, 0, 0, 0, 0, 0, 0])
   \<and> once_status quiet_env = 0 \<and> lock_status quiet_env = 0 \<and> unlock_status quiet_env = 0
   \<and> thd_suspend quiet_env one_suspended 7 = Return 0 one_suspended"
proof -
  have h: "once one_suspended" "array one_suspended = Some [7, 0, 0, 0, 0, 0, 0, 0, 0, 0]"
    "7 \<in> set (take (bottom one_suspended) [7, 0, 0, 0, 0, 0, 0, 0, 0, 0])"
    "once_status quiet_env = 0" "lock_status quiet_env = 0" "unlock_status quiet_env = 0"
    by (simp_all add: one_suspended_eq quiet_env_def)
  from thd_suspend_idempotent [OF h] h show ?thesis by simp
qed

subsection \<open>C2: the search for an empty slot\<close>

text \<open>
  C2 does not hold of the code. The search \<^verbatim>\<open>i = 0; while (array[i] != 0) i++;\<close>
  has no bound: when all \<^verbatim>\<open>bottom\<close> slots are taken it reads \<^verbatim>\<open>array[bottom]\<close>, one
  slot behind the block, and goes on to grow the registry only if it finds \<open>0\<close>
  there. Here the threads 1 to 10 are suspended and thread 11 is to be, in an
  environment where every access behind the block traps: when nothing behind the
  ten slots can be read, the read of index 10 traps; when the word behind them
  reads \<open>0\<close>, the array gets an eleventh slot, \<^verbatim>\<open>bottom\<close> becomes 11, and the
  clearing write goes to \<^verbatim>\<open>array[11]\<close>, behind the eleven slots.
\<close>

theorem thd_suspend_full_registry:
  "bottom ten_suspended = 10 \<and> slots ten_suspended = [1, 2, 3, 4, 5, 6, 7, 8, 9, 10]
   \<and> thd_suspend quiet_env ten_suspended 11 = Fault (OOB_Read 10) ten_suspended
   \<and> thd_suspend (quiet_env\<lparr>past_end := [0]\<rparr>) ten_suspended 11
       = Fault (OOB_Write 11)
           (ten_suspended\<lparr>bottom := 11, array := Some [1, 2, 3, 4, 5, 6, 7, 8, 9, 10, 0]\<rparr>)"
  by (simp add: ten_suspended_eq slots_def eval_defs)

subsection \<open>C3: the allocation fails\<close>

text \<open>
  C3 does not hold of the code. \<^verbatim>\<open>array = realloc (array, (++bottom * sizeof (pthread_t)))\<close>
  increments \<^verbatim>\<open>bottom\<close> and overwrites the pointer before the result is tested.
  Here the threads 1 to 10 are suspended, the word behind the ten slots reads \<open>0\<close>,
  and \<^verbatim>\<open>realloc\<close> fails with \<^verbatim>\<open>errno\<close> 12 while thread 11 is suspended: the call
  returns 12, and afterwards \<^verbatim>\<open>bottom\<close> is 11 and \<^verbatim>\<open>array\<close> is \<^verbatim>\<open>NULL\<close>, so none of
  the ten threads is registered any more (\<open>thd_suspend_full_grow\<close> is the general
  statement).
\<close>

theorem thd_suspend_realloc_fails:
  "bottom ten_suspended = 10 \<and> array ten_suspended = Some [1, 2, 3, 4, 5, 6, 7, 8, 9, 10]
   \<and> thd_suspend (quiet_env\<lparr>past_end := [0], realloc_ok := False\<rparr>) ten_suspended 11
       = Return 12 (ten_suspended\<lparr>bottom := 11, array := None\<rparr>)"
  by (simp add: ten_suspended_eq eval_defs)

subsection \<open>C4: resuming a thread that is not suspended\<close>

text \<open>
  C4 does not hold of the code, by the defect of C5. In a package that has never
  been initialised \<^verbatim>\<open>thd_continue\<close> returns \<open>0\<close> at once, as the claim says. In an
  initialised one, for a target that is in none of the \<^verbatim>\<open>bottom\<close> slots, the scan
  reads \<^verbatim>\<open>array[bottom]\<close>, behind the block, before it stops: the call returns \<open>0\<close>
  and changes nothing where that word can be read, whatever its value, and it
  traps where the word cannot be read (\<open>thd_continue_absent\<close>). Here thread 7 has
  been suspended and resumed, and is resumed once more.
\<close>

theorem thd_continue_after_resume:
  "bottom one_resumed = 10 \<and> slots one_resumed = [0, 0, 0, 0, 0, 0, 0, 0, 0, 0]
   \<and> thd_continue quiet_env one_resumed 7 = Fault (OOB_Read 10) one_resumed
   \<and> thd_continue (quiet_env\<lparr>past_end := [0]\<rparr>) one_resumed 7 = Return 0 one_resumed
   \<and> thd_continue quiet_env initial_state 7 = Return 0 initial_state"
  by (simp add: one_resumed_eq slots_def eval_defs)

subsection \<open>C5: the indices the scan of thd_continue reads\<close>

text \<open>
  C5 does not hold of the code. The loop
  \<^verbatim>\<open>while (array[i] != target_thread && i < bottom) i++;\<close> reads the slot before it
  tests the index, so for a target that is in none of the \<^verbatim>\<open>bottom\<close> slots it reads
  \<^verbatim>\<open>array[bottom]\<close>, one slot behind the block (\<open>thd_continue_absent\<close>). Here thread
  7 is suspended, thread 8 never was, and nothing behind the ten slots can be read:
  the read of index 10 traps.
\<close>

theorem thd_continue_reads_past_end:
  "bottom one_suspended = 10 \<and> length (slots one_suspended) = 10
   \<and> thd_continue quiet_env one_suspended 8 = Fault (OOB_Read 10) one_suspended"
  by (simp add: one_suspended_eq slots_def eval_defs)

subsection \<open>C6: the suspend signal cannot be delivered\<close>




subsection \<open>C7: the resume signal cannot be delivered\<close>

text \<open>
  C7. When the target \<open>t\<close> stands in one of the \<^verbatim>\<open>bottom\<close> slots and \<^verbatim>\<open>pthread_kill\<close>
  fails, \<^verbatim>\<open>thd_continue (t)\<close> returns the status of \<^verbatim>\<open>pthread_kill\<close> and leaves every
  global as it was; the slot still holds \<open>t\<close>, and a second call in which
  \<^verbatim>\<open>pthread_kill\<close> succeeds finds it, sends \<^verbatim>\<open>SIGUSR2\<close> and clears it.
\<close>

theorem thd_continue_kill_fails:
  assumes "lock_status e = 0" "inited s" "array s = Some blk" "t \<in> set (take (bottom s) blk)"
    "kill_status e \<noteq> 0"
  shows "thd_continue e s t = Return (kill_status e) s
       \<and> (\<exists>k. k < bottom s \<and> k < length blk \<and> blk ! k = t
            \<and> thd_continue (e\<lparr>kill_status := 0\<rparr>) (final (thd_continue e s t)) t
                = Return (unlock_status e)
                    (s\<lparr>delivered := delivered s @ [(t, SIGUSR2)], array := Some (blk[k := 0])\<rparr>))"
proof -
  from assms(4) obtain k where k: "k < bottom s" "k < length blk" "blk ! k = t" "t \<notin> set (take k blk)"
    by (rule first_occurrence)
  from thd_continue_present [OF assms(1-3) k, of ] assms(5)
  have first: "thd_continue e s t = Return (kill_status e) s" by simp
  from assms(1) have "lock_status (e\<lparr>kill_status := 0\<rparr>) = 0" by simp
  from thd_continue_present [OF this assms(2,3) k]
  have "thd_continue (e\<lparr>kill_status := 0\<rparr>) s t
          = Return (unlock_status e)
              (s\<lparr>delivered := delivered s @ [(t, SIGUSR2)], array := Some (blk[k := 0])\<rparr>)"
    by simp
  with first k show ?thesis by auto
qed

theorem thd_continue_kill_fails_witness:
  "lock_status (quiet_env\<lparr>kill_status := 3\<rparr>) = 0 \<and> inited one_suspended
   \<and> array one_suspended = Some [7, 0, 0, 0, 0, 0, 0, 0, 0, 0]
   \<and> 7 \<in> set (take (bottom one_suspended) [7, 0, 0, 0, 0, 0, 0, 0, 0, 0])
   \<and> kill_status (quiet_env\<lparr>kill_status := 3\<rparr>) \<noteq> 0
   \<and> thd_continue (quiet_env\<lparr>kill_status := 3\<rparr>) one_suspended 7 = Return 3 one_suspended"
proof -
  have h: "lock_status (quiet_env\<lparr>kill_status := 3\<rparr>) = 0" "inited one_suspended"
    "array one_suspended = Some [7, 0, 0, 0, 0, 0, 0, 0, 0, 0]"
    "7 \<in> set (take (bottom one_suspended) [7, 0, 0, 0, 0, 0, 0, 0, 0, 0])"
    "kill_status (quiet_env\<lparr>kill_status := 3\<rparr>) \<noteq> 0"
    by (simp_all add: one_suspended_eq quiet_env_def)
  from thd_continue_kill_fails [OF h] h show ?thesis by simp
qed

subsection \<open>C8: no thread identifier in two slots\<close>

lemma reachable_suspend_all:
  "reachable s \<Longrightarrow> returns_all e s ts
   \<Longrightarrow> reachable (fold (\<lambda>t s. final (thd_suspend e s t)) ts s)"
proof (induction ts arbitrary: s)
  case Nil
  then show ?case by simp
next
  case (Cons t ts)
  from Cons.prems(2) obtain r s' where out: "thd_suspend e s t = Return r s'"
    and rest: "returns_all e s' ts"
    by (cases "thd_suspend e s t") simp_all
  from Cons.prems(1) out have "reachable s'" by (rule reachable.suspend)
  from Cons.IH [OF this rest] out show ?case by simp
qed

lemma reachable_ten_suspended: "reachable ten_suspended"
proof -
  have "returns_all quiet_env initial_state [1, 2, 3, 4, 5, 6, 7, 8, 9, 10]"
    by (simp add: eval_defs replicate_ten)
  with reachable.start show ?thesis
    unfolding ten_suspended_def by (rule reachable_suspend_all)
qed

text \<open>
  C8 does not hold of the code, by the defect of C9. When the registry is grown,
  the clearing write misses the slot that \<^verbatim>\<open>realloc\<close> added, and when the signal
  then cannot be delivered the call returns with that slot holding what \<^verbatim>\<open>realloc\<close>
  left there. Here the threads 1 to 10 are suspended, the word behind the ten slots
  reads \<open>0\<close>, \<^verbatim>\<open>realloc\<close> leaves 7 in the slot it adds, the write behind the grown
  block lands, and \<^verbatim>\<open>pthread_kill\<close> fails for thread 11: the state after the call is
  reachable, and thread 7 stands in two slots. Every returning \<^verbatim>\<open>thd_continue\<close>, and
  every returning \<^verbatim>\<open>thd_suspend\<close> in which the signal is delivered or no write
  behind the block lands, keeps the invariant (\<open>registry_inv_continue\<close>,
  \<open>registry_inv_suspend\<close>).
\<close>

theorem registry_unique_broken:
  "reachable leftover_state
   \<and> slots leftover_state = [1, 2, 3, 4, 5, 6, 7, 8, 9, 10, 7]
   \<and> \<not> registry_unique leftover_state"
proof -
  have out: "thd_suspend leftover_env ten_suspended 11 = Return 3 leftover_state"
    and slots: "slots leftover_state = [1, 2, 3, 4, 5, 6, 7, 8, 9, 10, 7]"
    by (simp_all add: leftover_state_def ten_suspended_eq leftover_env_def slots_def eval_defs)
  from reachable_ten_suspended out have "reachable leftover_state" by (rule reachable.suspend)
  moreover from slots have "\<not> registry_unique leftover_state"
    by (simp add: registry_unique_def)
  ultimately show ?thesis using slots by simp
qed

subsection \<open>C9: the write behind the grown array\<close>

text \<open>
  C9. On an array of \<^verbatim>\<open>bottom\<close> slots, when \<^verbatim>\<open>realloc\<close> succeeds, the growth
  step increments \<^verbatim>\<open>bottom\<close> by one, makes the array one slot longer (the new last
  slot holding what \<^verbatim>\<open>realloc\<close> left there, \<open>fresh e\<close>), and then writes the
  clearing \<^verbatim>\<open>null_pthread\<close> at index \<^verbatim>\<open>bottom\<close>, the incremented value: one slot
  behind the new last slot, which itself is not written. Where the write lands, it
  is the overrun \<open>(bottom s + 1, null_pthread)\<close> and the call goes on to send the
  signal; where it does not, the call traps in it. \<^verbatim>\<open>thd_suspend\<close> gets there when
  all slots are taken, the target is new and the word behind the block reads \<open>0\<close>.
\<close>

theorem growth_writes_past_end:
  assumes "array s = Some blk" "length blk = bottom s" "realloc_ok e"
  shows "grow e s
           = (if overrun_lands e
              then Inr (s\<lparr>bottom := bottom s + 1, array := Some (blk @ [fresh e]),
                         overruns := overruns s @ [(bottom s + 1, null_pthread)]\<rparr>)
              else Inl (Fault (OOB_Write (bottom s + 1))
                     (s\<lparr>bottom := bottom s + 1, array := Some (blk @ [fresh e])\<rparr>)))
       \<and> (once s \<and> once_status e = 0 \<and> lock_status e = 0 \<and> 0 \<notin> set blk \<and> t \<notin> set blk
            \<and> past_end e = 0 # p
          \<longrightarrow> thd_suspend e s t
                = (if overrun_lands e
                   then signal_and_record e
                          (s\<lparr>bottom := bottom s + 1, array := Some (blk @ [fresh e]),
                             overruns := overruns s @ [(bottom s + 1, null_pthread)]\<rparr>)
                          t (bottom s)
                   else Fault (OOB_Write (bottom s + 1))
                          (s\<lparr>bottom := bottom s + 1, array := Some (blk @ [fresh e])\<rparr>)))"
proof (intro conjI impI)
  show "grow e s
          = (if overrun_lands e
             then Inr (s\<lparr>bottom := bottom s + 1, array := Some (blk @ [fresh e]),
                        overruns := overruns s @ [(bottom s + 1, null_pthread)]\<rparr>)
             else Inl (Fault (OOB_Write (bottom s + 1))
                    (s\<lparr>bottom := bottom s + 1, array := Some (blk @ [fresh e])\<rparr>)))"
    using assms by (rule grow_succeeds)
next
  assume "once s \<and> once_status e = 0 \<and> lock_status e = 0 \<and> 0 \<notin> set blk \<and> t \<notin> set blk
            \<and> past_end e = 0 # p"
  then have h: "once s" "once_status e = 0" "lock_status e = 0" "0 \<notin> set blk" "t \<notin> set blk"
    "past_end e = 0 # p" by simp_all
  from thd_suspend_full_grow [OF h(1-3) assms(1,2) h(4-6)] assms(3)
  show "thd_suspend e s t
          = (if overrun_lands e
             then signal_and_record e
                    (s\<lparr>bottom := bottom s + 1, array := Some (blk @ [fresh e]),
                       overruns := overruns s @ [(bottom s + 1, null_pthread)]\<rparr>)
                    t (bottom s)
             else Fault (OOB_Write (bottom s + 1))
                    (s\<lparr>bottom := bottom s + 1, array := Some (blk @ [fresh e])\<rparr>))"
    by simp
qed

theorem growth_writes_past_end_witness:
  "array ten_suspended = Some [1, 2, 3, 4, 5, 6, 7, 8, 9, 10]
   \<and> length [1, 2, 3, 4, 5, 6, 7, 8, 9, 10 :: nat] = bottom ten_suspended
   \<and> realloc_ok (quiet_env\<lparr>past_end := [0], fresh := 99\<rparr>)
   \<and> thd_suspend (quiet_env\<lparr>past_end := [0], fresh := 99\<rparr>) ten_suspended 11
       = Fault (OOB_Write 11)
           (ten_suspended\<lparr>bottom := 11, array := Some [1, 2, 3, 4, 5, 6, 7, 8, 9, 10, 99]\<rparr>)"
proof -
  have h: "array ten_suspended = Some [1, 2, 3, 4, 5, 6, 7, 8, 9, 10]"
    "length [1, 2, 3, 4, 5, 6, 7, 8, 9, 10 :: nat] = bottom ten_suspended"
    "realloc_ok (quiet_env\<lparr>past_end := [0], fresh := 99\<rparr>)"
    by (simp_all add: ten_suspended_eq quiet_env_def)
  from growth_writes_past_end [OF h, of 11 "[]"] h show ?thesis
    by (simp add: ten_suspended_eq quiet_env_def)
qed

subsection \<open>C10: what thd_continue writes\<close>

text \<open>
  C10. However a call of \<^verbatim>\<open>thd_continue (t)\<close> ends, \<^verbatim>\<open>bottom\<close>, \<^verbatim>\<open>inited\<close>, the
  sentinel, the once flag and the number of slots are what they were. The array is
  what it was too, except in one case: \<^verbatim>\<open>pthread_kill\<close> succeeded, the call returns,
  and exactly the first slot that held \<open>t\<close>, a slot below \<^verbatim>\<open>bottom\<close>, has been set
  to \<open>0\<close>.
\<close>

theorem thd_continue_frame:
  "bottom (final (thd_continue e s t)) = bottom s
   \<and> inited (final (thd_continue e s t)) = inited s
   \<and> sentinel (final (thd_continue e s t)) = sentinel s
   \<and> once (final (thd_continue e s t)) = once s
   \<and> length (slots (final (thd_continue e s t))) = length (slots s)
   \<and> (array (final (thd_continue e s t)) = array s
      \<or> (\<exists>blk i. array s = Some blk \<and> i < bottom s \<and> i < length blk \<and> blk ! i = t
            \<and> t \<notin> set (take i blk) \<and> kill_status e = 0
            \<and> thd_continue e s t = Return (unlock_status e)
                 (s\<lparr>delivered := delivered s @ [(t, SIGUSR2)], array := Some (blk[i := 0])\<rparr>)))"
proof (cases rule: thd_continue_cases [where e = e and s = s and t = t])
  case unchanged
  then show ?thesis by simp
next
  case (stray i)
  then show ?thesis by (auto simp: slots_def)
next
  case (cleared blk i)
  then have "\<exists>blk i. array s = Some blk \<and> i < bottom s \<and> i < length blk \<and> blk ! i = t
            \<and> t \<notin> set (take i blk) \<and> kill_status e = 0
            \<and> thd_continue e s t = Return (unlock_status e)
                 (s\<lparr>delivered := delivered s @ [(t, SIGUSR2)], array := Some (blk[i := 0])\<rparr>)"
    by blast
  moreover from cleared have "bottom (final (thd_continue e s t)) = bottom s"
    "inited (final (thd_continue e s t)) = inited s"
    "sentinel (final (thd_continue e s t)) = sentinel s"
    "once (final (thd_continue e s t)) = once s"
    "length (slots (final (thd_continue e s t))) = length (slots s)"
    by (simp_all add: slots_def)
  ultimately show ?thesis by blast
qed

theorem thd_continue_frame_witness:
  "thd_continue quiet_env one_suspended 7 = Return 0
     (one_suspended\<lparr>delivered := [(7, SIGUSR1), (7, SIGUSR2)],
                     array := Some [0, 0, 0, 0, 0, 0, 0, 0, 0, 0]\<rparr>)
   \<and> bottom (final (thd_continue quiet_env one_suspended 7)) = bottom one_suspended
   \<and> length (slots (final (thd_continue quiet_env one_suspended 7))) = length (slots one_suspended)"
  using thd_continue_frame [of quiet_env one_suspended 7]
  by (simp add: one_suspended_eq eval_defs)

end
